theory Spec2Isabelle
  imports Complex_Main "HOL-Library.Sublist"
begin

section \<open>Data model\<close>

text \<open>
  The dependency tree document read from \<open>step1_output.json\<close>: every node is a JSON object
  whose optional \<open>dependencies\<close> field maps a child name to the child node. The field is kept
  as an association list in the order of \<open>Object.keys\<close>; an absent field is the empty list
  (the source reads it as \<open>node.dependencies || {}\<close>). \<open>node.dependencies[dep]\<close> is
  \<open>map_of\<close>, \<open>Object.keys(node.dependencies)\<close> is \<open>map fst\<close>. The keys of a JSON object are
  distinct, which \<open>wf_tree\<close> states.
\<close>

datatype tree = Node (deps: "(string \<times> tree) list")

fun wf_tree :: "tree \<Rightarrow> bool" where
  "wf_tree (Node kvs) = (distinct (map fst kvs) \<and> (\<forall>c \<in> set (map snd kvs). wf_tree c))"

text \<open>The tags of \<open>DependencyType\<close>.\<close>

datatype DependencyType = DEVELOPMENT_ONLY | WITHIN_PROJECT | LAGGING | VULNERABLE | NORMAL

text \<open>
  One entry of \<open>step5_output.json\<close>. Of a vulnerability only \<open>cvss\<close> is read; step 5 writes
  \<open>null\<close> there when the scanner gave neither a v2 nor a v3 score, which is \<open>None\<close>.
\<close>

record vulnerability =
  cvss :: "rat option"

record finding =
  fileName :: string
  vulnerabilities :: "vulnerability list"

text \<open>
  Plain objects used as dictionaries. \<open>releaseIntervals\<close> (parsed from JSON) and
  \<open>vulnerabilityExposure\<close> (created as \<open>{}\<close>) inherit from \<open>Object.prototype\<close>, so reading a
  key that is not an own key finds the member of \<open>Object.prototype\<close> of that name, if there
  is one: a function, or for \<open>__proto__\<close> the prototype object itself. All of them are
  truthy. An own key is a key of the map.
\<close>

definition object_prototype_keys :: "string list" where
  "object_prototype_keys =
     [''constructor'', ''__defineGetter__'', ''__defineSetter__'', ''hasOwnProperty'',
      ''__lookupGetter__'', ''__lookupSetter__'', ''isPrototypeOf'', ''propertyIsEnumerable'',
      ''toString'', ''valueOf'', ''__proto__'', ''toLocaleString'']"

text \<open>
  The text that \<open>+\<close> makes of an inherited member (as Node prints it): the source of a
  native function, named \<open>Object\<close> for \<open>constructor\<close>, and \<open>[object Object]\<close> for the
  prototype object.
\<close>

definition inherited_member_text :: "string \<Rightarrow> string" where
  "inherited_member_text k =
     (if k = ''__proto__'' then ''[object Object]''
      else if k = ''constructor'' then ''function Object() { [native code] }''
      else ''function '' @ k @ ''() { [native code] }'')"

text \<open>
  What \<open>releaseIntervals[dependency] || -1\<close> can be: a number of days, or an inherited
  member of \<open>Object.prototype\<close>. What \<open>vulnerabilityExposure\<close> can hold under a key: a
  count, or the text that \<open>+ 1\<close> made of a value that was not a number.
\<close>

datatype interval_value = Days int | Inherited_member string

datatype exposure_value = Count nat | Text string

text \<open>The value \<open>classifyDependency\<close> returns and \<open>report.dependencies\<close> stores.\<close>

record DependencyRecord =
  dependencyTypes :: "DependencyType list"
  highestCvssScore :: rat
  intervals :: interval_value

section \<open>Path simplification\<close>

text \<open>
  \<open>simplifyPath\<close>: the \<open>for\<close> loop over the path, with the two local arrays
  \<open>simplifiedPath\<close> and \<open>withinProjectBuffer\<close> as accumulators. After the loop the
  source returns \<open>simplifiedPath\<close>; the buffer is not looked at again.
\<close>

fun simplifyPath_loop :: "string list \<Rightarrow> string list \<Rightarrow> string list \<Rightarrow> string list \<Rightarrow> string list" where
  "simplifyPath_loop withinProjectDependencies [] simplifiedPath withinProjectBuffer = simplifiedPath"
| "simplifyPath_loop withinProjectDependencies (node # rest) simplifiedPath withinProjectBuffer =
     (if node \<in> set withinProjectDependencies
      then simplifyPath_loop withinProjectDependencies rest simplifiedPath (withinProjectBuffer @ [node])
      else simplifyPath_loop withinProjectDependencies rest
             ((if withinProjectBuffer \<noteq> [] then simplifiedPath @ [last withinProjectBuffer]
               else simplifiedPath) @ [node]) [])"

definition simplifyPath :: "string list \<Rightarrow> string list \<Rightarrow> string list" where
  "simplifyPath path withinProjectDependencies =
     simplifyPath_loop withinProjectDependencies path [] []"

text \<open>
  The simplifier as the specification words it: the buffer is flushed (its last element
  emitted) at every name outside the within-project set and also at the end of the path.
\<close>

fun spec_simplify_loop :: "string list \<Rightarrow> string list \<Rightarrow> string list \<Rightarrow> string list \<Rightarrow> string list" where
  "spec_simplify_loop wp [] out buf = (if buf \<noteq> [] then out @ [last buf] else out)"
| "spec_simplify_loop wp (n # rest) out buf =
     (if n \<in> set wp then spec_simplify_loop wp rest out (buf @ [n])
      else spec_simplify_loop wp rest ((if buf \<noteq> [] then out @ [last buf] else out) @ [n]) [])"

definition spec_simplify :: "string list \<Rightarrow> string list \<Rightarrow> string list" where
  "spec_simplify path wp = spec_simplify_loop wp path [] []"

section \<open>Classifier\<close>

text \<open>
  \<open>Math.max\<close> applies \<open>ToNumber\<close> to its arguments, and \<open>ToNumber(null)\<close> is \<open>0\<close>.
  \<open>Math.max(a, ...xs)\<close> is the running maximum started at \<open>a\<close>. The maximum and the order of
  two doubles are exact, so scores are rationals.
\<close>

definition toNumber :: "rat option \<Rightarrow> rat" where
  "toNumber v = (case v of None \<Rightarrow> 0 | Some x \<Rightarrow> x)"

definition Math_max :: "rat \<Rightarrow> rat option list \<Rightarrow> rat" where
  "Math_max a xs = fold (\<lambda>x m. max m (toNumber x)) xs a"

text \<open>\<open>getHighestCvssScoreForDependency\<close>; \<open>startsWith\<close> is \<open>prefix\<close>, on the raw \<open>fileName\<close>.\<close>

definition getHighestCvssScoreForDependency :: "string \<Rightarrow> finding list \<Rightarrow> rat" where
  "getHighestCvssScoreForDependency dependency vulnerabilitiesData =
     (let relevantEntries = filter (\<lambda>entry. prefix dependency (fileName entry)) vulnerabilitiesData;
          scores = concat (map (\<lambda>entry. map cvss (vulnerabilities entry)) relevantEntries)
      in Math_max (- 1) scores)"

text \<open>
  \<open>classifyDependency\<close> (its parameter \<open>vulnerabilities\<close> is primed here, the name
  being a field of \<open>finding\<close>). \<open>releaseIntervals\<close> is the object \<open>releaseInterval\<close> of
  \<open>step4_output.json\<close>, whose values step 4 rounds to whole days. In
  \<open>releaseIntervals[dependency] || -1\<close> the right operand is taken when the left one is
  falsy: when the stored number is \<open>0\<close>, and when the name is neither an own key nor a
  member of \<open>Object.prototype\<close> (\<open>undefined\<close>). An inherited member is truthy and is
  returned as it is.
\<close>

definition classifyDependency ::
  "string \<Rightarrow> string list \<Rightarrow> string list \<Rightarrow> string list \<Rightarrow> string list \<Rightarrow> finding list
     \<Rightarrow> (string \<rightharpoonup> int) \<Rightarrow> DependencyRecord" where
  "classifyDependency dependency devDependencies withinProjectDependencies laggingDependencies
       vulnerabilities' vulnerabilitiesData releaseIntervals =
     (let intervals = (case releaseIntervals dependency of
                         None \<Rightarrow> if dependency \<in> set object_prototype_keys
                                 then Inherited_member dependency else Days (- 1)
                       | Some v \<Rightarrow> if v = 0 then Days (- 1) else Days v);
          types = (if dependency \<in> set devDependencies then [DEVELOPMENT_ONLY] else [])
                @ (if dependency \<in> set withinProjectDependencies then [WITHIN_PROJECT] else [])
                @ (if dependency \<in> set laggingDependencies then [LAGGING] else [])
                @ (if dependency \<in> set vulnerabilities' then [VULNERABLE] else []);
          highestCvssScore = getHighestCvssScoreForDependency dependency vulnerabilitiesData
      in \<lparr>dependencyTypes = types, highestCvssScore = highestCvssScore, intervals = intervals\<rparr>)"

text \<open>
  The list \<open>vulnerabilities\<close> that \<open>step6_constructPath\<close> builds from the findings:
  \<open>vuln.fileName.split(':')[0].replace('.min', '').replace('.js', '')\<close>.
  \<open>split(':')[0]\<close> is the text before the first colon; \<open>replace\<close> with a string pattern
  removes the first occurrence of the pattern only.
\<close>

definition split_colon_first :: "string \<Rightarrow> string" where
  "split_colon_first s = takeWhile (\<lambda>c. c \<noteq> CHR '':'') s"

fun replace_first :: "string \<Rightarrow> string \<Rightarrow> string" where
  "replace_first pat [] = []"
| "replace_first pat (c # cs) =
     (if prefix pat (c # cs) then drop (length pat) (c # cs) else c # replace_first pat cs)"

definition strippedName :: "string \<Rightarrow> string" where
  "strippedName s = replace_first ''.js'' (replace_first ''.min'' (split_colon_first s))"

definition vulnerabilityNames :: "finding list \<Rightarrow> string list" where
  "vulnerabilityNames vulnerabilitiesData = map (\<lambda>vuln. strippedName (fileName vuln)) vulnerabilitiesData"

text \<open>
  The score as the specification words it: the maximum score over the findings whose
  subject name, that is the file name with \<open>.min\<close> and \<open>.js\<close> stripped, has the dependency
  name as a prefix, and \<open>-1\<close> when there is no such score.
\<close>

definition spec_highestCvssScore :: "string \<Rightarrow> finding list \<Rightarrow> rat" where
  "spec_highestCvssScore name findings =
     (let scores = concat (map (\<lambda>f. map (\<lambda>v. toNumber (cvss v)) (vulnerabilities f))
                            (filter (\<lambda>f. prefix name (strippedName (fileName f))) findings))
      in if scores = [] then - 1 else Max (set scores))"

section \<open>Dependency tree view\<close>

text \<open>
  \<open>findChildren\<close>: the \<open>for\<close> loop walks \<open>currentPath\<close> down from the root; the test
  \<open>node.dependencies && node.dependencies[dep]\<close> fails exactly when the current node has no
  child of that name, and the function then returns \<open>[]\<close>.
\<close>

fun findChildren :: "tree \<Rightarrow> string list \<Rightarrow> string list" where
  "findChildren node [] = map fst (deps node)"
| "findChildren node (dep # currentPath) =
     (case map_of (deps node) dep of
        Some child \<Rightarrow> findChildren child currentPath
      | None \<Rightarrow> [])"

text \<open>The node that a name path resolves to, if every step has a matching child.\<close>

fun node_at :: "tree \<Rightarrow> string list \<Rightarrow> tree option" where
  "node_at n [] = Some n"
| "node_at n (d # ds) = (case map_of (deps n) d of None \<Rightarrow> None | Some c \<Rightarrow> node_at c ds)"



text \<open>
  The number of name paths below a node, the node itself included, counted the way the
  traversal reaches them: through the keys of a node and the child stored under each key.
\<close>

lemma size_child: "(k, c) \<in> set kvs \<Longrightarrow> size c < size (Node kvs)"
  by (induction kvs) auto

function subtree_weight :: "tree \<Rightarrow> nat" where
  "subtree_weight (Node kvs) =
     Suc (sum_list (map (\<lambda>k. case map_of kvs k of None \<Rightarrow> 0 | Some c \<Rightarrow> subtree_weight c)
                        (map fst kvs)))"
  by pat_completeness auto
termination
  apply (relation "measure size")
   apply simp
  apply (auto dest!: map_of_SomeD size_child)
  done

definition path_weight :: "tree \<Rightarrow> string list \<Rightarrow> nat" where
  "path_weight t p = (case node_at t p of None \<Rightarrow> 1 | Some n \<Rightarrow> subtree_weight n)"

section \<open>Seeding the queue\<close>

text \<open>
  \<open>initializeQueueWithNestedDeps\<close>: the \<open>while\<close> loop over an explicit stack. The stack is
  kept with its top first, so \<open>stack.pop()\<close> takes the head and the children pushed by
  \<open>forEach\<close> in key order end up reversed in front of the rest. Every key of a node has a
  child stored under it, so the \<open>None\<close> case of the lookup is never taken.
\<close>

lemma pushed_weight:
  "sum_list (map (\<lambda>(n, p). subtree_weight n)
       (concat (map (\<lambda>dep. case m dep of None \<Rightarrow> [] | Some child \<Rightarrow> [(child, path @ [dep])]) ks)))
   = sum_list (map (\<lambda>k. case m k of None \<Rightarrow> 0 | Some c \<Rightarrow> subtree_weight c) ks)"
  by (induction ks) (auto split: option.splits)

function initializeQueue_loop ::
  "(tree \<times> string list) list \<Rightarrow> string list list \<Rightarrow> string list list" where
  "initializeQueue_loop [] queue = queue"
| "initializeQueue_loop ((node, path) # stack) queue =
     initializeQueue_loop
       (rev (concat (map (\<lambda>dep. case map_of (deps node) dep of
                                  None \<Rightarrow> []
                                | Some child \<Rightarrow> [(child, path @ [dep])])
                         (map fst (deps node)))) @ stack)
       (queue @ map (\<lambda>dep. path @ [dep]) (map fst (deps node)))"
  by pat_completeness auto
termination
proof (relation "measure (\<lambda>(stack, queue). sum_list (map (\<lambda>(n, p). subtree_weight n) stack))")
  show "wf (measure (\<lambda>(stack, queue). sum_list (map (\<lambda>(n, p). subtree_weight n) stack)))"
    by simp
next
  fix node :: tree and path :: "string list" and stack :: "(tree \<times> string list) list"
    and queue :: "string list list"
  obtain kvs where node: "node = Node kvs" by (cases node)
  have "sum_list (map (\<lambda>(n, p). subtree_weight n)
          (rev (concat (map (\<lambda>dep. case map_of (deps node) dep of
                                  None \<Rightarrow> []
                                | Some child \<Rightarrow> [(child, path @ [dep])])
                         (map fst (deps node))))))
        < subtree_weight node"
    unfolding rev_map [symmetric] sum_list_rev pushed_weight by (simp add: node)
  then show "((rev (concat (map (\<lambda>dep. case map_of (deps node) dep of
                                  None \<Rightarrow> []
                                | Some child \<Rightarrow> [(child, path @ [dep])])
                         (map fst (deps node)))) @ stack,
              queue @ map (\<lambda>dep. path @ [dep]) (map fst (deps node))),
             (node, path) # stack, queue)
            \<in> measure (\<lambda>(stack, queue). sum_list (map (\<lambda>(n, p). subtree_weight n) stack))"
    by simp
qed

definition initializeQueueWithNestedDeps :: "tree \<Rightarrow> string list list" where
  "initializeQueueWithNestedDeps dependencyTree = initializeQueue_loop [(dependencyTree, [])] []"

section \<open>Traversal engine\<close>

text \<open>
  The classification inputs that \<open>step6_constructPath\<close> reads from the output files of
  steps 2 to 5, and the objects it builds: \<open>report\<close> (with \<open>vulnerabilityExposure\<close>, which
  the source attaches to the report after the loop) and, during the loop, the set
  \<open>foundVulnerableDeps\<close>.
\<close>

record inputs =
  devDependencies :: "string list"
  withinProjectDependencies :: "string list"
  laggingDependencies :: "string list"
  vulnerabilitiesData :: "finding list"
  releaseIntervals :: "string \<rightharpoonup> int"

record report =
  paths :: "string list list"
  dependencies :: "string \<rightharpoonup> DependencyRecord"
  vulnerabilityExposure :: "string \<rightharpoonup> exposure_value"

record engine_state = report +
  foundVulnerableDeps :: "string set"

text \<open>
  \<open>vulnerabilityExposure[currentNode] = (vulnerabilityExposure[currentNode] || 0) + 1\<close>.
  The read finds an own key or else an inherited member. A number (or nothing) gives the
  next count; an inherited member or a stored text makes \<open>+\<close> a concatenation with
  \<open>1\<close>. The write makes an own key, except under \<open>__proto__\<close>, where assigning a
  primitive value does nothing.
\<close>

definition exposure_increment :: "(string \<rightharpoonup> exposure_value) \<Rightarrow> string \<Rightarrow> (string \<rightharpoonup> exposure_value)" where
  "exposure_increment exposure currentNode =
     (let v = (case exposure currentNode of
                 Some (Count n) \<Rightarrow> Count (n + 1)
               | Some (Text s) \<Rightarrow> if s = [] then Count 1 else Text (s @ ''1'')
               | None \<Rightarrow> if currentNode \<in> set object_prototype_keys
                         then Text (inherited_member_text currentNode @ ''1'')
                         else Count 1)
      in if currentNode = ''__proto__'' then exposure else exposure(currentNode \<mapsto> v))"

text \<open>
  \<open>report.dependencies\<close> is kept as the record that \<open>report.dependencies[name]\<close> reads
  back: the record last assigned under the name. (Under \<open>__proto__\<close> the assignment makes
  the record the prototype of the object instead of an own key, and the read returns it
  all the same.) An inherited member read there by the comparator has no
  \<open>highestCvssScore\<close> and counts \<open>0\<close>, like a name without a record.
\<close>

definition classify :: "inputs \<Rightarrow> string \<Rightarrow> DependencyRecord" where
  "classify inp currentNode =
     classifyDependency currentNode (devDependencies inp) (withinProjectDependencies inp)
       (laggingDependencies inp) (vulnerabilityNames (vulnerabilitiesData inp))
       (vulnerabilitiesData inp) (releaseIntervals inp)"

text \<open>
  One iteration of the \<open>while\<close> loop of \<open>step6_constructPath\<close> on the dequeued
  \<open>currentPath\<close>: the paths it pushes to the queue and the updated state.
  \<open>!currentNode\<close> holds for an empty path (\<open>undefined\<close>) and for the empty name.
\<close>

definition loop_body ::
  "tree \<Rightarrow> inputs \<Rightarrow> string list \<Rightarrow> engine_state \<Rightarrow> string list list \<times> engine_state" where
  "loop_body dependencyTree inp currentPath st =
     (if currentPath = [] \<or> last currentPath = [] then ([], st)
      else
        let currentNode = last currentPath;
            rec = classify inp currentNode;
            st1 = st\<lparr>dependencies := (dependencies st)(currentNode \<mapsto> rec)\<rparr>
        in if VULNERABLE \<in> set (dependencyTypes rec)
           then ([],
                 st1\<lparr>vulnerabilityExposure :=
                        exposure_increment (vulnerabilityExposure st1) currentNode,
                      paths := paths st1 @ [simplifyPath currentPath (withinProjectDependencies inp)],
                      foundVulnerableDeps := insert currentNode (foundVulnerableDeps st1)\<rparr>)
           else if DEVELOPMENT_ONLY \<notin> set (dependencyTypes rec)
           then (map (\<lambda>child. currentPath @ [child])
                     (filter (\<lambda>child. child \<notin> foundVulnerableDeps st1)
                             (findChildren dependencyTree currentPath)),
                 st1)
           else ([], st1))"

lemma findChildren_node_at:
  "findChildren t p = (case node_at t p of None \<Rightarrow> [] | Some n \<Rightarrow> map fst (deps n))"
  by (induction t p rule: findChildren.induct) (auto split: option.splits)

lemma node_at_snoc:
  "node_at t (p @ [c]) = (case node_at t p of None \<Rightarrow> None | Some n \<Rightarrow> map_of (deps n) c)"
  by (induction t p rule: node_at.induct) (auto split: option.splits)

lemma children_weight:
  "sum_list (map (path_weight t) (map (\<lambda>child. p @ [child]) (findChildren t p))) < path_weight t p"
proof (cases "node_at t p")
  case None
  then show ?thesis by (simp add: findChildren_node_at path_weight_def)
next
  case (Some n)
  obtain kvs where n: "n = Node kvs" by (cases n)
  have "path_weight t (p @ [k]) = (case map_of kvs k of None \<Rightarrow> 0 | Some c \<Rightarrow> subtree_weight c)"
    if "k \<in> set (map fst kvs)" for k
    using that Some n
    by (auto simp: path_weight_def node_at_snoc map_of_eq_None_iff split: option.splits)
  then have eq: "map (\<lambda>k. path_weight t (p @ [k])) (map fst kvs)
        = map (\<lambda>k. case map_of kvs k of None \<Rightarrow> 0 | Some c \<Rightarrow> subtree_weight c) (map fst kvs)"
    by (intro map_cong refl)
  have lhs: "map (path_weight t) (map (\<lambda>child. p @ [child]) (findChildren t p))
        = map (\<lambda>k. path_weight t (p @ [k])) (map fst kvs)"
    using Some n by (simp add: findChildren_node_at comp_def)
  have rhs: "path_weight t p
        = Suc (sum_list (map (\<lambda>k. case map_of kvs k of None \<Rightarrow> 0 | Some c \<Rightarrow> subtree_weight c)
                             (map fst kvs)))"
    using Some n by (simp add: path_weight_def)
  show ?thesis
    unfolding lhs rhs eq by simp
qed

lemma loop_body_weight:
  "sum_list (map (path_weight t) (fst (loop_body t inp p st))) < path_weight t p"
proof -
  have pos: "0 < path_weight t p"
    using children_weight [of t p] by simp
  have "sum_list (map (path_weight t) (map (\<lambda>child. p @ [child]) (filter P (findChildren t p))))
        \<le> sum_list (map (path_weight t) (map (\<lambda>child. p @ [child]) (findChildren t p)))" for P
    unfolding map_map filter_map [symmetric] by (simp add: sum_list_filter_le_nat)
  then have "sum_list (map (path_weight t) (map (\<lambda>child. p @ [child]) (filter P (findChildren t p))))
        < path_weight t p" for P
    using children_weight [of t p] by (rule le_less_trans)
  with pos show ?thesis
    by (simp add: loop_body_def Let_def)
qed

text \<open>
  The \<open>while (queue.length > 0)\<close> loop: \<open>queue.shift()\<close> takes the head, \<open>queue.push\<close>
  appends. It ends because every iteration replaces a path by paths of smaller total weight.
\<close>

function traverse :: "tree \<Rightarrow> inputs \<Rightarrow> string list list \<Rightarrow> engine_state \<Rightarrow> engine_state" where
  "traverse t inp [] st = st"
| "traverse t inp (currentPath # queue) st =
     traverse t inp (queue @ fst (loop_body t inp currentPath st))
       (snd (loop_body t inp currentPath st))"
  by pat_completeness auto
termination
proof (relation "measure (\<lambda>(t, inp, queue, st). sum_list (map (path_weight t) queue))")
  show "wf (measure (\<lambda>(t, inp, queue, st). sum_list (map (path_weight t) queue)))"
    by simp
next
  fix t inp currentPath queue st
  show "((t, inp, queue @ fst (loop_body t inp currentPath st), snd (loop_body t inp currentPath st)),
         t, inp, currentPath # queue, st)
        \<in> measure (\<lambda>(t, inp, queue, st). sum_list (map (path_weight t) queue))"
    using loop_body_weight [of t inp currentPath st] by simp
qed

text \<open>The paths the loop dequeues, in order: one entry per iteration.\<close>

function dequeued :: "tree \<Rightarrow> inputs \<Rightarrow> string list list \<Rightarrow> engine_state \<Rightarrow> string list list" where
  "dequeued t inp [] st = []"
| "dequeued t inp (currentPath # queue) st =
     currentPath # dequeued t inp (queue @ fst (loop_body t inp currentPath st))
       (snd (loop_body t inp currentPath st))"
  by pat_completeness auto
termination
proof (relation "measure (\<lambda>(t, inp, queue, st). sum_list (map (path_weight t) queue))")
  show "wf (measure (\<lambda>(t, inp, queue, st). sum_list (map (path_weight t) queue)))"
    by simp
next
  fix t inp currentPath queue st
  show "((t, inp, queue @ fst (loop_body t inp currentPath st), snd (loop_body t inp currentPath st)),
         t, inp, currentPath # queue, st)
        \<in> measure (\<lambda>(t, inp, queue, st). sum_list (map (path_weight t) queue))"
    using loop_body_weight [of t inp currentPath st] by simp
qed

section \<open>Ranking and the report\<close>

text \<open>
  The comparator of \<open>report.paths.sort\<close>. A name without a record, and a score of \<open>0\<close>,
  contribute \<open>0\<close> (\<open>?.highestCvssScore || 0\<close>); \<open>reduce\<close> starts the maximum at \<open>0\<close>.
\<close>

definition pathScore :: "(string \<rightharpoonup> DependencyRecord) \<Rightarrow> string list \<Rightarrow> rat" where
  "pathScore recs a =
     fold (\<lambda>score mx. max mx score)
          (map (\<lambda>node. case recs node of
                          None \<Rightarrow> 0
                        | Some r \<Rightarrow> if highestCvssScore r = 0 then 0 else highestCvssScore r) a)
          0"

definition compareFn :: "(string \<rightharpoonup> DependencyRecord) \<Rightarrow> string list \<Rightarrow> string list \<Rightarrow> rat" where
  "compareFn recs a b = pathScore recs b - pathScore recs a"

text \<open>
  \<open>Array.prototype.sort\<close> with a comparator is a stable sort (ECMAScript 2019): \<open>a\<close> stays
  before \<open>b\<close> unless the comparator is positive on \<open>(a, b)\<close>. Insertion from the right is
  such a sort. The sign of the difference of two doubles is the sign of the exact
  difference.
\<close>

fun insert_by :: "('a \<Rightarrow> 'a \<Rightarrow> rat) \<Rightarrow> 'a \<Rightarrow> 'a list \<Rightarrow> 'a list" where
  "insert_by cmp x [] = [x]"
| "insert_by cmp x (y # ys) = (if cmp x y \<le> 0 then x # y # ys else y # insert_by cmp x ys)"

definition array_sort :: "('a \<Rightarrow> 'a \<Rightarrow> rat) \<Rightarrow> 'a list \<Rightarrow> 'a list" where
  "array_sort cmp xs = foldr (insert_by cmp) xs []"

definition initial_state :: engine_state where
  "initial_state = \<lparr>paths = [], dependencies = Map.empty, vulnerabilityExposure = Map.empty,
                    foundVulnerableDeps = {}\<rparr>"

text \<open>
  \<open>step6_constructPath\<close> from the parsed inputs to the report it writes: seed the queue, run
  the loop, sort the paths.
\<close>

definition step6_constructPath :: "tree \<Rightarrow> inputs \<Rightarrow> report" where
  "step6_constructPath dependencyTree inp =
     (let st = traverse dependencyTree inp (initializeQueueWithNestedDeps dependencyTree) initial_state
      in \<lparr>paths = array_sort (compareFn (dependencies st)) (paths st),
          dependencies = dependencies st,
          vulnerabilityExposure = vulnerabilityExposure st\<rparr>)"

text \<open>
  The ranking key as the specification words it: the maximum \<open>highestCvssScore\<close> among
  the records of the names on the path, and \<open>0\<close> for a path none of whose names has a record.
\<close>

definition spec_pathMax :: "(string \<rightharpoonup> DependencyRecord) \<Rightarrow> string list \<Rightarrow> rat" where
  "spec_pathMax recs a =
     (let scores = concat (map (\<lambda>node. case recs node of None \<Rightarrow> [] | Some r \<Rightarrow> [highestCvssScore r]) a)
      in if scores = [] then 0 else Max (set scores))"

section \<open>The loop as a transition relation\<close>

text \<open>
  The same loop, branch by branch, as a relation between configurations (the queue and
  the state): \<open>continue\<close> on a falsy name, the vulnerable branch, the expansion of a node
  that is not development-only, and the development-only node, which falls through.
\<close>

inductive iteration ::
  "tree \<Rightarrow> inputs \<Rightarrow> string list list \<times> engine_state \<Rightarrow> string list list \<times> engine_state \<Rightarrow> bool"
  for dependencyTree :: tree and inp :: inputs where
  skip:
    "currentPath = [] \<or> last currentPath = [] \<Longrightarrow>
       iteration dependencyTree inp (currentPath # queue, st) (queue, st)"
| vulnerable:
    "\<lbrakk>currentPath \<noteq> []; last currentPath \<noteq> [];
      VULNERABLE \<in> set (dependencyTypes (classify inp (last currentPath)))\<rbrakk> \<Longrightarrow>
       iteration dependencyTree inp (currentPath # queue, st)
         (queue,
          st\<lparr>dependencies := (dependencies st)(last currentPath \<mapsto> classify inp (last currentPath)),
             vulnerabilityExposure :=
               exposure_increment (vulnerabilityExposure st) (last currentPath),
             paths := paths st @ [simplifyPath currentPath (withinProjectDependencies inp)],
             foundVulnerableDeps := insert (last currentPath) (foundVulnerableDeps st)\<rparr>)"
| expand:
    "\<lbrakk>currentPath \<noteq> []; last currentPath \<noteq> [];
      VULNERABLE \<notin> set (dependencyTypes (classify inp (last currentPath)));
      DEVELOPMENT_ONLY \<notin> set (dependencyTypes (classify inp (last currentPath)))\<rbrakk> \<Longrightarrow>
       iteration dependencyTree inp (currentPath # queue, st)
         (queue @ map (\<lambda>child. currentPath @ [child])
                      (filter (\<lambda>child. child \<notin> foundVulnerableDeps st)
                              (findChildren dependencyTree currentPath)),
          st\<lparr>dependencies := (dependencies st)(last currentPath \<mapsto> classify inp (last currentPath))\<rparr>)"
| pruned:
    "\<lbrakk>currentPath \<noteq> []; last currentPath \<noteq> [];
      VULNERABLE \<notin> set (dependencyTypes (classify inp (last currentPath)));
      DEVELOPMENT_ONLY \<in> set (dependencyTypes (classify inp (last currentPath)))\<rbrakk> \<Longrightarrow>
       iteration dependencyTree inp (currentPath # queue, st)
         (queue,
          st\<lparr>dependencies := (dependencies st)(last currentPath \<mapsto> classify inp (last currentPath))\<rparr>)"

text \<open>A run of the loop to the empty queue, and a run of the whole engine to its report.\<close>

inductive loop_runs ::
  "tree \<Rightarrow> inputs \<Rightarrow> string list list \<times> engine_state \<Rightarrow> engine_state \<Rightarrow> bool"
  for dependencyTree :: tree and inp :: inputs where
  finished: "loop_runs dependencyTree inp ([], st) st"
| continues: "\<lbrakk>iteration dependencyTree inp c c'; loop_runs dependencyTree inp c' st'\<rbrakk> \<Longrightarrow>
               loop_runs dependencyTree inp c st'"

inductive engine_run :: "tree \<Rightarrow> inputs \<Rightarrow> report \<Rightarrow> bool" where
  "loop_runs dependencyTree inp (initializeQueueWithNestedDeps dependencyTree, initial_state) st \<Longrightarrow>
     engine_run dependencyTree inp
       \<lparr>paths = array_sort (compareFn (dependencies st)) (paths st),
        dependencies = dependencies st,
        vulnerabilityExposure = vulnerabilityExposure st\<rparr>"

section \<open>Properties of the path simplifier\<close>

lemma simplifyPath_loop_append:
  "simplifyPath_loop wp (p @ q) out buf =
     simplifyPath_loop wp q (simplifyPath_loop wp p out buf)
       (if \<exists>n \<in> set p. n \<notin> set wp then rev (takeWhile (\<lambda>n. n \<in> set wp) (rev p))
        else buf @ p)"
proof (induction p arbitrary: out buf)
  case Nil
  show ?case by simp
next
  case (Cons a p)
  show ?case
  proof (cases "a \<in> set wp")
    case True
    then show ?thesis
      using Cons.IH [of out "buf @ [a]"] by (auto simp: takeWhile_append)
  next
    case False
    then show ?thesis
      using Cons.IH [of "(if buf \<noteq> [] then out @ [last buf] else out) @ [a]" "[]"]
      by (auto simp: takeWhile_append)
  qed
qed

lemma simplifyPath_loop_within:
  "set run \<subseteq> set wp \<Longrightarrow> simplifyPath_loop wp run out buf = out"
  by (induction run arbitrary: buf) auto

lemma simplifyPath_trailing_run:
  "set run \<subseteq> set wp \<Longrightarrow> simplifyPath (p @ run) wp = simplifyPath p wp"
  by (simp add: simplifyPath_def simplifyPath_loop_append simplifyPath_loop_within)

lemma simplifyPath_loop_filter:
  "filter (\<lambda>n. n \<notin> set wp) (simplifyPath_loop wp p out buf) =
     filter (\<lambda>n. n \<notin> set wp) out @ filter (\<lambda>n. n \<notin> set wp) p"
  if "set buf \<subseteq> set wp"
  using that
proof (induction p arbitrary: out buf)
  case Nil
  show ?case by simp
next
  case (Cons a p)
  show ?case
  proof (cases "a \<in> set wp")
    case True
    with Cons.prems show ?thesis
      using Cons.IH [of "buf @ [a]" out] by simp
  next
    case False
    have "buf \<noteq> [] \<Longrightarrow> last buf \<in> set wp"
      using Cons.prems last_in_set by blast
    with False show ?thesis
      using Cons.IH [of "[]" "(if buf \<noteq> [] then out @ [last buf] else out) @ [a]"]
      by simp
  qed
qed

lemma simplifyPath_keeps_outside_names:
  "filter (\<lambda>n. n \<notin> set wp) (simplifyPath p wp) = filter (\<lambda>n. n \<notin> set wp) p"
  by (simp add: simplifyPath_def simplifyPath_loop_filter)

text \<open>
  C1. The claim says that a within-project run ending the path is flushed like any other
  and so collapses to its last element. The loop of \<open>simplifyPath\<close> has no flush after its
  last iteration: at the path \<open>[express, core]\<close> with \<open>core\<close> within-project the result is
  \<open>[express]\<close>, the run \<open>[core]\<close> contributes nothing, while the simplifier of the
  specification returns \<open>[express, core]\<close>.
\<close>

theorem simplifyPath_drops_trailing_run:
  "simplifyPath [''express'', ''core''] [''core''] = [''express'']
   \<and> spec_simplify [''express'', ''core''] [''core''] = [''express'', ''core'']"
  by (simp add: simplifyPath_def spec_simplify_def)

section \<open>Properties of the classifier\<close>

lemma Math_max_Max: "Math_max a xs = Max (insert a (toNumber ` set xs))"
proof -
  have "fold (\<lambda>x m. max m (toNumber x)) xs a = fold max (map toNumber xs) a"
    by (induction xs arbitrary: a) (simp_all add: max.commute)
  also have "\<dots> = Max (set (a # map toNumber xs))"
    by (simp only: Max.set_eq_fold)
  finally show ?thesis by (simp add: Math_max_def)
qed

lemma replace_first_absent:
  "\<not> (\<exists>u v. s = u @ pat @ v) \<Longrightarrow> replace_first pat s = s"
proof (induction s)
  case Nil
  show ?case by simp
next
  case (Cons c cs)
  have "\<not> prefix pat (c # cs)"
    using Cons.prems by (auto simp: prefix_def dest: spec [of _ "[]"])
  moreover have "\<not> (\<exists>u v. cs = u @ pat @ v)"
  proof
    assume "\<exists>u v. cs = u @ pat @ v"
    then obtain u v where "cs = u @ pat @ v" by blast
    then have "c # cs = (c # u) @ pat @ v" by simp
    with Cons.prems show False by blast
  qed
  ultimately show ?case using Cons.IH by simp
qed

lemma replace_first_leftmost:
  "\<lbrakk>pat \<noteq> []; \<forall>u' v'. u @ pat @ v = u' @ pat @ v' \<longrightarrow> length u \<le> length u'\<rbrakk>
     \<Longrightarrow> replace_first pat (u @ pat @ v) = u @ v"
proof (induction u)
  case Nil
  then show ?case by (cases pat) simp_all
next
  case (Cons c u)
  have np: "\<not> prefix pat (c # u @ pat @ v)"
  proof
    assume "prefix pat (c # u @ pat @ v)"
    then obtain w where "c # u @ pat @ v = pat @ w" by (auto simp: prefix_def)
    then have "(c # u) @ pat @ v = [] @ pat @ w" by simp
    with Cons.prems(2) have "length (c # u) \<le> length ([] :: string)" by blast
    then show False by simp
  qed
  have "\<forall>u' v'. u @ pat @ v = u' @ pat @ v' \<longrightarrow> length u \<le> length u'"
  proof (intro allI impI)
    fix u' v' assume "u @ pat @ v = u' @ pat @ v'"
    then have "(c # u) @ pat @ v = (c # u') @ pat @ v'" by simp
    with Cons.prems(2) have "length (c # u) \<le> length (c # u')" by blast
    then show "length u \<le> length u'" by simp
  qed
  with Cons.IH Cons.prems(1) have "replace_first pat (u @ pat @ v) = u @ v" by blast
  with np show ?case by simp
qed

lemma vulnerable_tag_iff:
  "VULNERABLE \<in> set (dependencyTypes (classifyDependency dep dev wp lag vs data ri)) \<longleftrightarrow> dep \<in> set vs"
  by (simp add: classifyDependency_def)

lemma development_only_tag_iff:
  "DEVELOPMENT_ONLY \<in> set (dependencyTypes (classifyDependency dep dev wp lag vs data ri)) \<longleftrightarrow> dep \<in> set dev"
  by (simp add: classifyDependency_def)

lemma getHighestCvssScore_Max:
  "getHighestCvssScoreForDependency dep data =
     Max (insert (- 1) {toNumber (cvss v) | f v.
            f \<in> set data \<and> prefix dep (fileName f) \<and> v \<in> set (vulnerabilities f)})"
proof -
  have "toNumber ` set (concat (map (\<lambda>entry. map cvss (vulnerabilities entry))
                            (filter (\<lambda>entry. prefix dep (fileName entry)) data)))
        = {toNumber (cvss v) | f v. f \<in> set data \<and> prefix dep (fileName f) \<and> v \<in> set (vulnerabilities f)}"
    by auto
  then show ?thesis
    by (simp add: getHighestCvssScoreForDependency_def Math_max_Max)
qed

text \<open>
  C4, as the claim states it, fails: the score is matched against the raw \<open>fileName\<close>, not
  against the name with \<open>.min\<close> and \<open>.js\<close> stripped. For the package \<open>chart.js\<close> and a
  finding on the file \<open>chart.js\<close> the code returns the finding's score, while the stripped
  name \<open>chart\<close> does not have \<open>chart.js\<close> as a prefix, so the claim gives \<open>-1\<close>.
\<close>

theorem highestCvssScore_not_stripped:
  "getHighestCvssScoreForDependency ''chart.js''
       [\<lparr>fileName = ''chart.js'', vulnerabilities = [\<lparr>cvss = Some (15 / 2)\<rparr>]\<rparr>] = 15 / 2
   \<and> spec_highestCvssScore ''chart.js''
       [\<lparr>fileName = ''chart.js'', vulnerabilities = [\<lparr>cvss = Some (15 / 2)\<rparr>]\<rparr>] = - 1"
  by (simp add: getHighestCvssScoreForDependency_def spec_highestCvssScore_def Math_max_def
      toNumber_def strippedName_def split_colon_first_def)

text \<open>
  C4, amended: the \<open>highestCvssScore\<close> of the record that the classifier returns is the
  maximum of \<open>-1\<close> and the scores (a \<open>null\<close> score counting as \<open>0\<close>) of all findings whose
  raw \<open>fileName\<close> has the dependency name as a prefix; it is \<open>-1\<close> when no finding matches.
\<close>

theorem highestCvssScore_raw_prefix_max:
  "highestCvssScore (classifyDependency dep dev wp lag vs data ri) =
     Max (insert (- 1) {toNumber (cvss v) | f v.
            f \<in> set data \<and> prefix dep (fileName f) \<and> v \<in> set (vulnerabilities f)})
   \<and> ((\<forall>f \<in> set data. \<not> prefix dep (fileName f)) \<longrightarrow>
        highestCvssScore (classifyDependency dep dev wp lag vs data ri) = - 1)"
proof
  show "highestCvssScore (classifyDependency dep dev wp lag vs data ri) =
     Max (insert (- 1) {toNumber (cvss v) | f v.
            f \<in> set data \<and> prefix dep (fileName f) \<and> v \<in> set (vulnerabilities f)})"
    by (simp add: classifyDependency_def getHighestCvssScore_Max)
  show "(\<forall>f \<in> set data. \<not> prefix dep (fileName f)) \<longrightarrow>
        highestCvssScore (classifyDependency dep dev wp lag vs data ri) = - 1"
  proof
    assume "\<forall>f \<in> set data. \<not> prefix dep (fileName f)"
    then have "filter (\<lambda>entry. prefix dep (fileName entry)) data = []"
      by (simp add: filter_empty_conv)
    then show "highestCvssScore (classifyDependency dep dev wp lag vs data ri) = - 1"
      by (simp add: classifyDependency_def getHighestCvssScoreForDependency_def Math_max_def)
  qed
qed

theorem highestCvssScore_raw_prefix_max_witness:
  "highestCvssScore (classifyDependency ''lodash'' [] [] [] [] 
       [\<lparr>fileName = ''minimist:1.2.0'', vulnerabilities = [\<lparr>cvss = Some (49 / 5)\<rparr>]\<rparr>] Map.empty) = - 1
   \<and> \<not> prefix ''lodash'' ''minimist:1.2.0''"
  using highestCvssScore_raw_prefix_max [of "''lodash''" "[]" "[]" "[]" "[]"
      "[\<lparr>fileName = ''minimist:1.2.0'', vulnerabilities = [\<lparr>cvss = Some (49 / 5)\<rparr>]\<rparr>]" Map.empty]
  by simp

text \<open>
  C5. The claim says that a stored interval of \<open>0\<close> is returned as \<open>0\<close>. Step 4 stores \<open>0\<close>
  for a package with a single published version (the rounded smoothed interval), and
  \<open>releaseIntervals[dependency] || -1\<close> then yields \<open>-1\<close>: a present key gives the
  sentinel of an absent one.
\<close>

theorem intervals_zero_becomes_sentinel:
  "intervals (classifyDependency ''left-pad'' [] [] [] [] [] [''left-pad'' \<mapsto> 0]) = Days (- 1)
   \<and> [''left-pad'' \<mapsto> (0::int)] ''left-pad'' = Some 0"
  by (simp add: classifyDependency_def)

lemma intervals_present_nonzero:
  "ri dep = Some v \<Longrightarrow> v \<noteq> 0 \<Longrightarrow> intervals (classifyDependency dep dev wp lag vs data ri) = Days v"
  by (simp add: classifyDependency_def)

lemma intervals_absent:
  "ri dep = None \<Longrightarrow> dep \<notin> set object_prototype_keys \<Longrightarrow>
     intervals (classifyDependency dep dev wp lag vs data ri) = Days (- 1)"
  by (simp add: classifyDependency_def)

lemma intervals_inherited:
  "intervals (classifyDependency ''constructor'' dev wp lag vs data Map.empty)
     = Inherited_member ''constructor''"
  by (simp add: classifyDependency_def object_prototype_keys_def)

section \<open>Properties of the tree view\<close>

lemma findChildren_resolved:
  "node_at t p = Some n \<Longrightarrow> findChildren t p = map fst (deps n)"
  by (simp add: findChildren_node_at)

lemma node_at_append:
  "node_at t (p @ q) = (case node_at t p of None \<Rightarrow> None | Some n \<Rightarrow> node_at n q)"
  by (induction t p rule: node_at.induct) (auto split: option.splits)

text \<open>
  C9. \<open>findChildren\<close> has no failing branch: it is a total function to lists of names.
  When the path does not resolve, that is when after some resolved prefix \<open>q\<close> the node
  reached has no child named by the next step \<open>d\<close>, the result is the empty list,
  whatever follows \<open>d\<close> in the path, and a loop iteration on such a path pushes nothing
  to the queue.
\<close>

theorem findChildren_unresolved_empty:
  "\<lbrakk>node_at t q = Some n; map_of (deps n) d = None\<rbrakk> \<Longrightarrow>
     node_at t (q @ d # r) = None \<and> findChildren t (q @ d # r) = []
     \<and> fst (loop_body t inp (q @ d # r) st) = []"
  by (simp add: findChildren_node_at node_at_append loop_body_def Let_def)

theorem findChildren_unresolved_empty_witness:
  "node_at (Node [(''a'', Node [(''b'', Node [])])]) [''a''] = Some (Node [(''b'', Node [])])
   \<and> map_of (deps (Node [(''b'', Node [])])) ''x'' = None
   \<and> findChildren (Node [(''a'', Node [(''b'', Node [])])]) [''a'', ''x'', ''y''] = []"
proof -
  have h1: "node_at (Node [(''a'', Node [(''b'', Node [])])]) [''a''] = Some (Node [(''b'', Node [])])"
    by simp
  have h2: "map_of (deps (Node [(''b'', Node [])])) ''x'' = None"
    by simp
  from findChildren_unresolved_empty [OF h1 h2, of "[''y'']"
      "\<lparr>devDependencies = [], withinProjectDependencies = [], laggingDependencies = [],
        vulnerabilitiesData = [], releaseIntervals = Map.empty\<rparr>" initial_state]
  have "findChildren (Node [(''a'', Node [(''b'', Node [])])]) ([''a''] @ ''x'' # [''y'']) = []"
    by blast
  with h1 h2 show ?thesis
    by simp
qed

section \<open>Properties of one loop iteration\<close>

lemma loop_body_found_mono:
  "foundVulnerableDeps st \<subseteq> foundVulnerableDeps (snd (loop_body t inp p st))"
  by (auto simp: loop_body_def Let_def)

lemma loop_body_enqueues_unfound:
  "q \<in> set (fst (loop_body t inp p st)) \<Longrightarrow> q \<noteq> [] \<and> last q \<notin> foundVulnerableDeps st"
  by (auto simp: loop_body_def Let_def split: if_splits)

lemma loop_body_development_only:
  "DEVELOPMENT_ONLY \<in> set (dependencyTypes (classify inp (last p))) \<Longrightarrow>
     fst (loop_body t inp p st) = []"
  by (simp add: loop_body_def Let_def)

lemma found_name_not_enqueued:
  "\<lbrakk>p \<in> set (dequeued t inp q st); last p \<in> foundVulnerableDeps st\<rbrakk> \<Longrightarrow> p \<in> set q"
proof (induction t inp q st rule: dequeued.induct)
  case (1 t inp st)
  then show ?case by simp
next
  case (2 t inp currentPath queue st)
  show ?case
  proof (cases "p = currentPath")
    case True
    then show ?thesis by simp
  next
    case False
    with "2.prems"(1)
    have "p \<in> set (dequeued t inp (queue @ fst (loop_body t inp currentPath st))
                     (snd (loop_body t inp currentPath st)))"
      by simp
    moreover have "last p \<in> foundVulnerableDeps (snd (loop_body t inp currentPath st))"
      using "2.prems"(2) loop_body_found_mono by blast
    ultimately have "p \<in> set (queue @ fst (loop_body t inp currentPath st))"
      by (rule "2.IH")
    moreover have "p \<notin> set (fst (loop_body t inp currentPath st))"
      using "2.prems"(2) loop_body_enqueues_unfound by blast
    ultimately show ?thesis by simp
  qed
qed

lemma vulnerable_iteration_effect:
  assumes "currentPath \<noteq> []" and "last currentPath \<noteq> []"
    and "VULNERABLE \<in> set (dependencyTypes (classify inp (last currentPath)))"
  shows "vulnerabilityExposure (snd (loop_body t inp currentPath st))
           = exposure_increment (vulnerabilityExposure st) (last currentPath)"
    and "paths (snd (loop_body t inp currentPath st))
           = paths st @ [simplifyPath currentPath (withinProjectDependencies inp)]"
    and "foundVulnerableDeps (snd (loop_body t inp currentPath st))
           = insert (last currentPath) (foundVulnerableDeps st)"
    and "fst (loop_body t inp currentPath st) = []"
  using assms by (simp_all add: loop_body_def Let_def)

lemma exposure_increment_count:
  assumes "k \<notin> set object_prototype_keys" and "\<forall>s. exposure k \<noteq> Some (Text s)"
  shows "exposure_increment exposure k k
           = Some (Count ((case exposure k of Some (Count n) \<Rightarrow> n | _ \<Rightarrow> 0) + 1))"
    and "other \<noteq> k \<Longrightarrow> exposure_increment exposure k other = exposure other"
proof -
  have "k \<noteq> ''__proto__''"
    using assms(1) by (auto simp: object_prototype_keys_def)
  with assms show "exposure_increment exposure k k
           = Some (Count ((case exposure k of Some (Count n) \<Rightarrow> n | _ \<Rightarrow> 0) + 1))"
    by (auto simp: exposure_increment_def Let_def split: option.splits exposure_value.splits)
  show "other \<noteq> k \<Longrightarrow> exposure_increment exposure k other = exposure other"
    by (simp add: exposure_increment_def Let_def)
qed

lemma spec_simplify_loop_outside_terminal:
  "\<lbrakk>p \<noteq> []; last p \<notin> set wp\<rbrakk> \<Longrightarrow>
     spec_simplify_loop wp p out buf = simplifyPath_loop wp p out buf"
proof (induction p arbitrary: out buf)
  case Nil
  then show ?case by simp
next
  case (Cons a p)
  show ?case
  proof (cases "p = []")
    case True
    with Cons.prems show ?thesis by simp
  next
    case False
    with Cons.prems have "last p \<notin> set wp" by simp
    with False Cons.IH show ?thesis by simp
  qed
qed

lemma simplifyPath_outside_terminal:
  "\<lbrakk>p \<noteq> []; last p \<notin> set wp\<rbrakk> \<Longrightarrow> simplifyPath p wp = spec_simplify p wp"
  by (simp add: simplifyPath_def spec_simplify_def spec_simplify_loop_outside_terminal)

text \<open>
  C7. The claim says that every iteration whose terminal name is tagged vulnerable appends
  the simplified path and adds one to the exposure count of the name. The iteration does
  add the name to \<open>foundVulnerableDeps\<close> and pushes nothing, but it misses the other two
  in two cases. When the vulnerable terminal is itself within-project, \<open>simplifyPath\<close>
  returns without flushing its buffer and the appended path lacks the terminal: on
  \<open>[express, core]\<close> with \<open>core\<close> within-project the loop appends \<open>[express]\<close>, where the
  simplification of the specification is \<open>[express, core]\<close>. When the name is a member of
  \<open>Object.prototype\<close>, the read \<open>vulnerabilityExposure[currentNode]\<close> finds the inherited
  function and \<open>+ 1\<close> stores a text instead of the count \<open>1\<close>.
\<close>

theorem vulnerable_iteration_misses:
  "VULNERABLE \<in> set (dependencyTypes (classify
        \<lparr>devDependencies = [], withinProjectDependencies = [''core''], laggingDependencies = [],
         vulnerabilitiesData = [\<lparr>fileName = ''core:1.0.0'', vulnerabilities = [\<lparr>cvss = Some (15 / 2)\<rparr>]\<rparr>],
         releaseIntervals = Map.empty\<rparr> ''core''))
   \<and> paths (snd (loop_body (Node [(''express'', Node [(''core'', Node [])])])
        \<lparr>devDependencies = [], withinProjectDependencies = [''core''], laggingDependencies = [],
         vulnerabilitiesData = [\<lparr>fileName = ''core:1.0.0'', vulnerabilities = [\<lparr>cvss = Some (15 / 2)\<rparr>]\<rparr>],
         releaseIntervals = Map.empty\<rparr> [''express'', ''core''] initial_state))
       = [[''express'']]
   \<and> spec_simplify [''express'', ''core''] [''core''] = [''express'', ''core'']
   \<and> VULNERABLE \<in> set (dependencyTypes (classify
        \<lparr>devDependencies = [], withinProjectDependencies = [], laggingDependencies = [],
         vulnerabilitiesData = [\<lparr>fileName = ''constructor:1.0.0'', vulnerabilities = [\<lparr>cvss = Some (15 / 2)\<rparr>]\<rparr>],
         releaseIntervals = Map.empty\<rparr> ''constructor''))
   \<and> vulnerabilityExposure (snd (loop_body (Node [(''constructor'', Node [])])
        \<lparr>devDependencies = [], withinProjectDependencies = [], laggingDependencies = [],
         vulnerabilitiesData = [\<lparr>fileName = ''constructor:1.0.0'', vulnerabilities = [\<lparr>cvss = Some (15 / 2)\<rparr>]\<rparr>],
         releaseIntervals = Map.empty\<rparr> [''constructor''] initial_state)) ''constructor''
       = Some (Text ''function Object() { [native code] }1'')"
  by code_simp

section \<open>The two matching rules\<close>

text \<open>
  C10. In the classification that \<open>step6_constructPath\<close> performs, the tag \<open>vulnerable\<close> is
  given exactly to the names equal to some finding's \<open>fileName\<close> cut at the first colon
  with the first \<open>.min\<close> and then the first \<open>.js\<close> removed, while the score is the maximum
  over the findings whose raw \<open>fileName\<close> starts with the name. The two rules disagree
  both ways: \<open>decimal-light\<close> is tagged through the file \<open>decimal.js-light:2.5.0\<close> and scores
  \<open>-1\<close>; \<open>chart.js\<close> is not tagged through the file \<open>chart.js:2.9.3\<close> and scores \<open>7.5\<close>.
\<close>

theorem tag_exact_score_prefix:
  "(VULNERABLE \<in> set (dependencyTypes (classify inp dep)) \<longleftrightarrow>
      (\<exists>f \<in> set (vulnerabilitiesData inp).
         dep = replace_first ''.js'' (replace_first ''.min''
                 (takeWhile (\<lambda>c. c \<noteq> CHR '':'') (fileName f)))))
   \<and> highestCvssScore (classify inp dep)
       = Max (insert (- 1) {toNumber (cvss v) | f v.
            f \<in> set (vulnerabilitiesData inp) \<and> prefix dep (fileName f) \<and> v \<in> set (vulnerabilities f)})
   \<and> (\<exists>inp' dep'. VULNERABLE \<in> set (dependencyTypes (classify inp' dep'))
          \<and> highestCvssScore (classify inp' dep') = - 1)
   \<and> (\<exists>inp' dep'. VULNERABLE \<notin> set (dependencyTypes (classify inp' dep'))
          \<and> highestCvssScore (classify inp' dep') > - 1)"
proof (intro conjI)
  show "VULNERABLE \<in> set (dependencyTypes (classify inp dep)) \<longleftrightarrow>
      (\<exists>f \<in> set (vulnerabilitiesData inp).
         dep = replace_first ''.js'' (replace_first ''.min''
                 (takeWhile (\<lambda>c. c \<noteq> CHR '':'') (fileName f))))"
    by (auto simp: classify_def vulnerable_tag_iff vulnerabilityNames_def strippedName_def
        split_colon_first_def)
  show "highestCvssScore (classify inp dep)
       = Max (insert (- 1) {toNumber (cvss v) | f v.
            f \<in> set (vulnerabilitiesData inp) \<and> prefix dep (fileName f) \<and> v \<in> set (vulnerabilities f)})"
    by (simp add: classify_def classifyDependency_def getHighestCvssScore_Max)
  have "VULNERABLE \<in> set (dependencyTypes (classify
          \<lparr>devDependencies = [], withinProjectDependencies = [], laggingDependencies = [],
           vulnerabilitiesData = [\<lparr>fileName = ''decimal.js-light:2.5.0'',
                                   vulnerabilities = [\<lparr>cvss = Some (15 / 2)\<rparr>]\<rparr>],
           releaseIntervals = Map.empty\<rparr> ''decimal-light''))
        \<and> highestCvssScore (classify
          \<lparr>devDependencies = [], withinProjectDependencies = [], laggingDependencies = [],
           vulnerabilitiesData = [\<lparr>fileName = ''decimal.js-light:2.5.0'',
                                   vulnerabilities = [\<lparr>cvss = Some (15 / 2)\<rparr>]\<rparr>],
           releaseIntervals = Map.empty\<rparr> ''decimal-light'') = - 1"
    by (simp add: classify_def classifyDependency_def vulnerabilityNames_def strippedName_def
        split_colon_first_def getHighestCvssScoreForDependency_def Math_max_def)
  then show "\<exists>inp' dep'. VULNERABLE \<in> set (dependencyTypes (classify inp' dep'))
          \<and> highestCvssScore (classify inp' dep') = - 1"
    by blast
  have "VULNERABLE \<notin> set (dependencyTypes (classify
          \<lparr>devDependencies = [], withinProjectDependencies = [], laggingDependencies = [],
           vulnerabilitiesData = [\<lparr>fileName = ''chart.js:2.9.3'',
                                   vulnerabilities = [\<lparr>cvss = Some (15 / 2)\<rparr>]\<rparr>],
           releaseIntervals = Map.empty\<rparr> ''chart.js''))
        \<and> highestCvssScore (classify
          \<lparr>devDependencies = [], withinProjectDependencies = [], laggingDependencies = [],
           vulnerabilitiesData = [\<lparr>fileName = ''chart.js:2.9.3'',
                                   vulnerabilities = [\<lparr>cvss = Some (15 / 2)\<rparr>]\<rparr>],
           releaseIntervals = Map.empty\<rparr> ''chart.js'') > - 1"
    by (simp add: classify_def classifyDependency_def vulnerabilityNames_def strippedName_def
        split_colon_first_def getHighestCvssScoreForDependency_def Math_max_def toNumber_def)
  then show "\<exists>inp' dep'. VULNERABLE \<notin> set (dependencyTypes (classify inp' dep'))
          \<and> highestCvssScore (classify inp' dep') > - 1"
    by blast
qed

theorem tag_exact_score_prefix_witness:
  "VULNERABLE \<in> set (dependencyTypes (classify
      \<lparr>devDependencies = [], withinProjectDependencies = [], laggingDependencies = [],
       vulnerabilitiesData = [\<lparr>fileName = ''jquery.min.js'', vulnerabilities = [\<lparr>cvss = Some (61 / 10)\<rparr>]\<rparr>],
       releaseIntervals = Map.empty\<rparr> ''jquery''))
   \<and> ''jquery'' = replace_first ''.js'' (replace_first ''.min''
                 (takeWhile (\<lambda>c. c \<noteq> CHR '':'') ''jquery.min.js''))"
  using tag_exact_score_prefix [of
      "\<lparr>devDependencies = [], withinProjectDependencies = [], laggingDependencies = [],
        vulnerabilitiesData = [\<lparr>fileName = ''jquery.min.js'', vulnerabilities = [\<lparr>cvss = Some (61 / 10)\<rparr>]\<rparr>],
        releaseIntervals = Map.empty\<rparr>" "''jquery''"]
  by simp

section \<open>Runs of the engine\<close>

text \<open>
  C2. The claim says that nothing below a development-only node is explored, so that no
  reported path continues past such a node through a name that is neither
  development-only nor vulnerable. The loop does skip the children of a development-only
  node, but the queue is seeded with every path of the tree, the ones below
  development-only nodes included. With \<open>webpack\<close> development-only and \<open>json5\<close> vulnerable
  the report holds the path through \<open>loader-utils\<close>, which has no tag at all.
\<close>

theorem development_only_subtree_reported:
  "paths (step6_constructPath
      (Node [(''webpack'', Node [(''loader-utils'', Node [(''json5'', Node [])])])])
      \<lparr>devDependencies = [''webpack''], withinProjectDependencies = [], laggingDependencies = [],
       vulnerabilitiesData = [\<lparr>fileName = ''json5:1.0.1'', vulnerabilities = [\<lparr>cvss = Some (71 / 10)\<rparr>]\<rparr>],
       releaseIntervals = Map.empty\<rparr>)
     = [[''webpack'', ''loader-utils'', ''json5''], [''webpack'', ''loader-utils'', ''json5'']]
   \<and> dependencyTypes (classify
      \<lparr>devDependencies = [''webpack''], withinProjectDependencies = [], laggingDependencies = [],
       vulnerabilitiesData = [\<lparr>fileName = ''json5:1.0.1'', vulnerabilities = [\<lparr>cvss = Some (71 / 10)\<rparr>]\<rparr>],
       releaseIntervals = Map.empty\<rparr> ''webpack'') = [DEVELOPMENT_ONLY]
   \<and> dependencyTypes (classify
      \<lparr>devDependencies = [''webpack''], withinProjectDependencies = [], laggingDependencies = [],
       vulnerabilitiesData = [\<lparr>fileName = ''json5:1.0.1'', vulnerabilities = [\<lparr>cvss = Some (71 / 10)\<rparr>]\<rparr>],
       releaseIntervals = Map.empty\<rparr> ''loader-utils'') = []"
  by code_simp

section \<open>Properties of the ranking\<close>

lemma pathScore_Max:
  "pathScore recs a = Max (insert 0 {highestCvssScore r | n r. n \<in> set a \<and> recs n = Some r})"
proof -
  let ?f = "\<lambda>node. case recs node of
                      None \<Rightarrow> 0
                    | Some r \<Rightarrow> if highestCvssScore r = 0 then 0 else highestCvssScore r"
  have "fold (\<lambda>score mx. max mx score) (map ?f a) 0 = fold max (map ?f a) 0"
    by (rule arg_cong [where f = "\<lambda>g. fold g (map ?f a) 0"]) (auto simp: max.commute)
  also have "\<dots> = Max (set (0 # map ?f a))"
    by (simp only: Max.set_eq_fold)
  also have "set (0 # map ?f a) = insert 0 (?f ` set a)"
    by simp
  also have "insert 0 (?f ` set a)
             = insert 0 {highestCvssScore r | n r. n \<in> set a \<and> recs n = Some r}"
  proof (intro set_eqI iffI)
    fix x assume "x \<in> insert 0 (?f ` set a)"
    then show "x \<in> insert 0 {highestCvssScore r | n r. n \<in> set a \<and> recs n = Some r}"
      by (auto split: option.splits if_splits)
  next
    fix x assume "x \<in> insert 0 {highestCvssScore r | n r. n \<in> set a \<and> recs n = Some r}"
    then consider "x = 0" | n r where "n \<in> set a" "recs n = Some r" "x = highestCvssScore r"
      by blast
    then show "x \<in> insert 0 (?f ` set a)"
    proof cases
      case 1
      then show ?thesis by simp
    next
      case 2
      then have "?f n = x" by simp
      with 2(1) show ?thesis by blast
    qed
  qed
  finally show ?thesis by (simp add: pathScore_def)
qed

lemma set_insert_by: "set (insert_by cmp x ys) = insert x (set ys)"
  by (induction ys) auto

lemma sorted_insert_by:
  "sorted_wrt (\<lambda>a b. key b \<le> key a) ys \<Longrightarrow>
     sorted_wrt (\<lambda>a b. key b \<le> key a) (insert_by (\<lambda>a b. key b - key a) x ys)"
  for key :: "'a \<Rightarrow> rat"
  by (induction ys) (auto simp: set_insert_by)

lemma filter_insert_by:
  "filter (\<lambda>p. key p = k) (insert_by (\<lambda>a b. key b - key a) x ys) = filter (\<lambda>p. key p = k) (x # ys)"
  for key :: "'a \<Rightarrow> rat"
  by (induction ys) auto

lemma sorted_array_sort:
  "sorted_wrt (\<lambda>a b. key b \<le> key a) (array_sort (\<lambda>a b. key b - key a) xs)"
  for key :: "'a \<Rightarrow> rat"
  by (induction xs) (simp_all add: array_sort_def sorted_insert_by)

lemma filter_array_sort:
  "filter (\<lambda>p. key p = k) (array_sort (\<lambda>a b. key b - key a) xs) = filter (\<lambda>p. key p = k) xs"
  for key :: "'a \<Rightarrow> rat"
  by (induction xs) (simp_all add: array_sort_def filter_insert_by)


lemma length_insert_by: "length (insert_by cmp x ys) = Suc (length ys)"
  by (induction ys) auto

lemma length_array_sort: "length (array_sort cmp xs) = length xs"
  by (induction xs) (simp_all add: array_sort_def length_insert_by)

text \<open>
  C6, as the claim states it, fails when a reported path has only records of score \<open>-1\<close>:
  the comparator never sees a value below \<open>0\<close>. \<open>decimal-light\<close> is tagged through the file
  \<open>decimal.js-light:2.5.0\<close> and scores \<open>-1\<close>; \<open>debug\<close> has a finding without a score
  (\<open>null\<close>) and scores \<open>0\<close>. Both paths rank \<open>0\<close>, so they stay in discovery order, and the
  path with maximum \<open>-1\<close> precedes the path with maximum \<open>0\<close>.
\<close>

theorem ranking_ignores_negative_scores:
  "paths (step6_constructPath (Node [(''decimal-light'', Node []), (''debug'', Node [])])
      \<lparr>devDependencies = [], withinProjectDependencies = [], laggingDependencies = [],
       vulnerabilitiesData =
         [\<lparr>fileName = ''decimal.js-light:2.5.0'', vulnerabilities = [\<lparr>cvss = Some (15 / 2)\<rparr>]\<rparr>,
          \<lparr>fileName = ''debug:2.6.8'', vulnerabilities = [\<lparr>cvss = None\<rparr>]\<rparr>],
       releaseIntervals = Map.empty\<rparr>) = [[''decimal-light''], [''debug'']]
   \<and> spec_pathMax (dependencies (step6_constructPath (Node [(''decimal-light'', Node []), (''debug'', Node [])])
      \<lparr>devDependencies = [], withinProjectDependencies = [], laggingDependencies = [],
       vulnerabilitiesData =
         [\<lparr>fileName = ''decimal.js-light:2.5.0'', vulnerabilities = [\<lparr>cvss = Some (15 / 2)\<rparr>]\<rparr>,
          \<lparr>fileName = ''debug:2.6.8'', vulnerabilities = [\<lparr>cvss = None\<rparr>]\<rparr>],
       releaseIntervals = Map.empty\<rparr>)) [''decimal-light''] = - 1
   \<and> spec_pathMax (dependencies (step6_constructPath (Node [(''decimal-light'', Node []), (''debug'', Node [])])
      \<lparr>devDependencies = [], withinProjectDependencies = [], laggingDependencies = [],
       vulnerabilitiesData =
         [\<lparr>fileName = ''decimal.js-light:2.5.0'', vulnerabilities = [\<lparr>cvss = Some (15 / 2)\<rparr>]\<rparr>,
          \<lparr>fileName = ''debug:2.6.8'', vulnerabilities = [\<lparr>cvss = None\<rparr>]\<rparr>],
       releaseIntervals = Map.empty\<rparr>)) [''debug''] = 0"
  by code_simp

text \<open>
  C6, amended. The key of a path is the maximum of \<open>0\<close> and the \<open>highestCvssScore\<close> values
  of the records of its names (a name without a record adds nothing). In the report the
  keys never increase from one path to any later one, and the paths of equal key are in
  the order in which the loop found them.
\<close>

theorem report_paths_ranked:
  "sorted_wrt (\<lambda>a b. pathScore (dependencies (step6_constructPath t inp)) b
                      \<le> pathScore (dependencies (step6_constructPath t inp)) a)
     (paths (step6_constructPath t inp))
   \<and> filter (\<lambda>p. pathScore (dependencies (step6_constructPath t inp)) p = k)
        (paths (step6_constructPath t inp))
     = filter (\<lambda>p. pathScore (dependencies (step6_constructPath t inp)) p = k)
        (paths (traverse t inp (initializeQueueWithNestedDeps t) initial_state))
   \<and> pathScore (dependencies (step6_constructPath t inp)) a
     = Max (insert 0 {highestCvssScore r | n r.
              n \<in> set a \<and> dependencies (step6_constructPath t inp) n = Some r})"
proof -
  let ?st = "traverse t inp (initializeQueueWithNestedDeps t) initial_state"
  have cmp: "compareFn (dependencies ?st)
             = (\<lambda>a b. pathScore (dependencies ?st) b - pathScore (dependencies ?st) a)"
    by (intro ext) (simp add: compareFn_def)
  have r: "paths (step6_constructPath t inp) = array_sort (compareFn (dependencies ?st)) (paths ?st)"
    "dependencies (step6_constructPath t inp) = dependencies ?st"
    by (simp_all add: step6_constructPath_def Let_def)
  show ?thesis
    unfolding r cmp
    by (intro conjI) (rule sorted_array_sort, rule filter_array_sort, rule pathScore_Max)
qed

section \<open>Determinism of the engine\<close>

lemma iteration_loop_body:
  "iteration t inp (p # q, st) (q @ fst (loop_body t inp p st), snd (loop_body t inp p st))"
proof (cases "p = [] \<or> last p = []")
  case True
  then have "loop_body t inp p st = ([], st)"
    by (simp add: loop_body_def)
  with True show ?thesis
    using iteration.skip [of p t inp q st] by simp
next
  case False
  then have ne: "p \<noteq> []" "last p \<noteq> []" by simp_all
  show ?thesis
  proof (cases "VULNERABLE \<in> set (dependencyTypes (classify inp (last p)))")
    case True
    with ne show ?thesis
      using iteration.vulnerable [of p inp t q st] by (simp add: loop_body_def Let_def)
  next
    case nv: False
    show ?thesis
    proof (cases "DEVELOPMENT_ONLY \<in> set (dependencyTypes (classify inp (last p)))")
      case True
      with ne nv show ?thesis
        using iteration.pruned [of p inp t q st] by (simp add: loop_body_def Let_def)
    next
      case False
      with ne nv show ?thesis
        using iteration.expand [of p inp t q st] by (simp add: loop_body_def Let_def)
    qed
  qed
qed




lemma loop_runs_traverse: "loop_runs t inp (q, st) (traverse t inp q st)"
proof (induction t inp q st rule: traverse.induct)
  case (1 t inp st)
  show ?case by (simp add: loop_runs.finished)
next
  case (2 t inp currentPath queue st)
  then show ?case
    using loop_runs.continues [OF iteration_loop_body] by simp
qed

lemma engine_run_step6: "engine_run t inp (step6_constructPath t inp)"
  unfolding step6_constructPath_def Let_def
  by (rule engine_run.intros) (rule loop_runs_traverse)


section \<open>Termination and the number of iterations\<close>

lemma dequeued_length:
  "length (dequeued t inp q st) \<le> sum_list (map (path_weight t) q)"
proof (induction t inp q st rule: dequeued.induct)
  case (1 t inp st)
  show ?case by simp
next
  case (2 t inp currentPath queue st)
  then show ?case
    using loop_body_weight [of t inp currentPath st] by simp
qed

lemma wf_tree_child: "wf_tree n \<Longrightarrow> map_of (deps n) k = Some c \<Longrightarrow> wf_tree c"
  by (cases n) (auto dest!: map_of_SomeD)

lemma wf_tree_keys: "wf_tree n \<Longrightarrow> distinct (map fst (deps n))"
  by (cases n) simp

lemma wf_tree_node_at: "wf_tree t \<Longrightarrow> node_at t p = Some n \<Longrightarrow> wf_tree n"
  by (induction t p rule: node_at.induct) (auto split: option.splits dest: wf_tree_child)

lemma distinct_findChildren: "wf_tree t \<Longrightarrow> distinct (findChildren t p)"
  by (auto simp: findChildren_node_at split: option.splits dest: wf_tree_node_at wf_tree_keys)

lemma distinct_count_le_1: "distinct xs \<Longrightarrow> count_list xs x \<le> 1"
  by (induction xs) auto

lemma loop_body_count:
  assumes "wf_tree t"
  shows "count_list (fst (loop_body t inp cp st)) p \<le> (if butlast p = cp then 1 else 0)"
proof -
  let ?new = "fst (loop_body t inp cp st)"
  have "distinct (map (\<lambda>child. cp @ [child]) (filter P (findChildren t cp)))" for P
    using distinct_findChildren [OF assms, of cp] by (simp add: distinct_map inj_on_def)
  then have d: "distinct ?new"
    by (simp add: loop_body_def Let_def)
  have "q \<in> set ?new \<Longrightarrow> butlast q = cp" for q
    by (auto simp: loop_body_def Let_def split: if_splits)
  then have "butlast p \<noteq> cp \<Longrightarrow> count_list ?new p = 0"
    by (auto simp: count_list_0_iff)
  with distinct_count_le_1 [OF d, of p] show ?thesis
    by auto
qed

lemma dequeued_count:
  assumes "wf_tree t"
  shows "count_list (dequeued t inp q st) p
           \<le> count_list q p + count_list (dequeued t inp q st) (butlast p)"
  using assms
proof (induction t inp q st rule: dequeued.induct)
  case (1 t inp st)
  show ?case by simp
next
  case (2 t inp currentPath queue st)
  from "2.IH" [OF "2.prems"] loop_body_count [OF "2.prems", of inp currentPath st p]
  show ?case
    by (auto split: if_splits)
qed

lemma dequeued_nonempty:
  "[] \<notin> set q \<Longrightarrow> [] \<notin> set (dequeued t inp q st)"
proof (induction t inp q st rule: dequeued.induct)
  case (1 t inp st)
  show ?case by simp
next
  case (2 t inp currentPath queue st)
  have "[] \<notin> set (fst (loop_body t inp currentPath st))"
    using loop_body_enqueues_unfound by blast
  with 2 show ?case by auto
qed

lemma initializeQueue_loop_nonempty:
  "[] \<notin> set queue \<Longrightarrow> [] \<notin> set (initializeQueue_loop stack queue)"
  by (induction stack queue rule: initializeQueue_loop.induct) auto

lemma pushed_paths:
  "map snd (concat (map (\<lambda>dep. case map_of kvs dep of None \<Rightarrow> [] | Some child \<Rightarrow> [(child, path @ [dep])])
                        ks))
   = map (\<lambda>k. path @ [k]) ks"
  if "set ks \<subseteq> fst ` set kvs"
  using that
proof (induction ks)
  case Nil
  show ?case by simp
next
  case (Cons k ks)
  then obtain c where "map_of kvs k = Some c"
    by (cases "map_of kvs k") (auto simp: map_of_eq_None_iff)
  with Cons show ?case by simp
qed

lemma pushed_wf:
  "(c, q) \<in> set (concat (map (\<lambda>dep. case map_of (deps node) dep of None \<Rightarrow> []
                                      | Some child \<Rightarrow> [(child, path @ [dep])]) ks))
     \<Longrightarrow> wf_tree node \<Longrightarrow> wf_tree c"
  by (auto split: option.splits) (metis wf_tree_child)

lemma snoc_parallel: "k \<noteq> k' \<Longrightarrow> path @ [k] \<parallel> path @ [k']"
  by (induction path) (auto intro: Cons_parallelI1 Cons_parallelI2)

lemma initializeQueue_loop_distinct:
  assumes "distinct queue"
    and "\<forall>a \<in> set stack. wf_tree (fst a)"
    and "distinct (map snd stack)"
    and "\<forall>p \<in> set (map snd stack). \<forall>p' \<in> set (map snd stack). p \<noteq> p' \<longrightarrow> p \<parallel> p'"
    and "\<forall>p \<in> set (map snd stack). \<forall>q \<in> set queue. \<not> strict_prefix p q"
  shows "distinct (initializeQueue_loop stack queue)"
  using assms
proof (induction stack queue rule: initializeQueue_loop.induct)
  case (1 queue)
  then show ?case by simp
next
  case (2 node path stack queue)
  let ?keys = "map fst (deps node)"
  let ?pushed = "concat (map (\<lambda>dep. case map_of (deps node) dep of None \<Rightarrow> []
                                      | Some child \<Rightarrow> [(child, path @ [dep])]) ?keys)"
  let ?new = "map (\<lambda>k. path @ [k]) ?keys"
  let ?old = "map snd stack"
  have wf: "wf_tree node" using "2.prems"(2) by simp
  have keys: "distinct ?keys" using wf by (rule wf_tree_keys)
  have snd_pushed: "map snd ?pushed = ?new"
    by (rule pushed_paths) simp
  have old_par: "p' \<parallel> path" if "p' \<in> set ?old" for p'
  proof -
    from that "2.prems"(3) have "p' \<noteq> path" by auto
    with that "2.prems"(4) show ?thesis by auto
  qed
  have no_ext: "\<not> strict_prefix path q" if "q \<in> set queue" for q
    using that "2.prems"(5) by simp
  have new_distinct: "distinct ?new"
    using keys by (simp add: distinct_map inj_on_def)
  have new_fresh: "set ?new \<inter> set queue = {}"
  proof -
    have "path @ [k] \<notin> set queue" for k
      using no_ext [of "path @ [k]"] by (auto simp: strict_prefix_def)
    then show ?thesis by auto
  qed
  have new_old: "set ?new \<inter> set ?old = {}"
  proof -
    have "path @ [k] \<notin> set ?old" for k
    proof
      assume "path @ [k] \<in> set ?old"
      then have "path @ [k] \<parallel> path" by (rule old_par)
      then show False by (auto simp: parallel_def)
    qed
    then show ?thesis by auto
  qed
  have p1: "distinct (queue @ ?new)"
    using "2.prems"(1) new_distinct new_fresh by auto
  have p2: "\<forall>a \<in> set (rev ?pushed @ stack). wf_tree (fst a)"
  proof
    fix a assume "a \<in> set (rev ?pushed @ stack)"
    then consider "a \<in> set ?pushed" | "a \<in> set stack" by auto
    then show "wf_tree (fst a)"
    proof cases
      case 1
      then have "(fst a, snd a) \<in> set ?pushed" by simp
      then show ?thesis using wf by (rule pushed_wf)
    next
      case 2
      with "2.prems"(2) show ?thesis by simp
    qed
  qed
  have paths': "map snd (rev ?pushed @ stack) = rev ?new @ ?old"
    by (simp add: rev_map [symmetric] snd_pushed del: map_map)
  have p3: "distinct (map snd (rev ?pushed @ stack))"
    unfolding paths' using new_distinct new_old "2.prems"(3) by auto
  have p4: "\<forall>p \<in> set (map snd (rev ?pushed @ stack)).
             \<forall>p' \<in> set (map snd (rev ?pushed @ stack)). p \<noteq> p' \<longrightarrow> p \<parallel> p'"
    unfolding paths'
  proof (intro ballI impI)
    fix p p' assume p: "p \<in> set (rev ?new @ ?old)" and p': "p' \<in> set (rev ?new @ ?old)"
      and ne: "p \<noteq> p'"
    from p consider k where "k \<in> set ?keys" "p = path @ [k]" | "p \<in> set ?old" by auto
    then show "p \<parallel> p'"
    proof cases
      case 1
      from p' consider k' where "k' \<in> set ?keys" "p' = path @ [k']" | "p' \<in> set ?old" by auto
      then show ?thesis
      proof cases
        case (1 k')
        with \<open>p = path @ [k]\<close> ne show ?thesis by (auto intro: snoc_parallel)
      next
        case 2
        then have "p' \<parallel> path" by (rule old_par)
        then have "p' @ [] \<parallel> path @ [k]" by (rule parallel_append)
        with \<open>p = path @ [k]\<close> show ?thesis by (simp add: parallel_commute)
      qed
    next
      case 2
      from p' consider k' where "k' \<in> set ?keys" "p' = path @ [k']" | "p' \<in> set ?old" by auto
      then show ?thesis
      proof cases
        case (1 k')
        from 2 have "p \<parallel> path" by (rule old_par)
        then have "p @ [] \<parallel> path @ [k']" by (rule parallel_append)
        with 1 show ?thesis by simp
      next
        case 2
        with \<open>p \<in> set ?old\<close> ne "2.prems"(4) show ?thesis by auto
      qed
    qed
  qed
  have p5: "\<forall>p \<in> set (map snd (rev ?pushed @ stack)). \<forall>q \<in> set (queue @ ?new). \<not> strict_prefix p q"
    unfolding paths'
  proof (intro ballI)
    fix p q assume p: "p \<in> set (rev ?new @ ?old)" and q: "q \<in> set (queue @ ?new)"
    from p consider k where "k \<in> set ?keys" "p = path @ [k]" | "p \<in> set ?old" by auto
    then show "\<not> strict_prefix p q"
    proof cases
      case 1
      from q consider "q \<in> set queue" | k' where "q = path @ [k']" by auto
      then show ?thesis
      proof cases
        case 1
        have "strict_prefix path (path @ [k])" by (simp add: strict_prefix_def)
        with no_ext [OF 1] \<open>p = path @ [k]\<close> show ?thesis
          by (metis prefix_order.less_trans)
      next
        case 2
        with \<open>p = path @ [k]\<close> show ?thesis
          by (auto dest: prefix_length_less)
      qed
    next
      case 2
      from q consider "q \<in> set queue" | k' where "q = path @ [k']" by auto
      then show ?thesis
      proof cases
        case 1
        with 2 "2.prems"(5) show ?thesis by auto
      next
        case (2 k')
        show ?thesis
        proof
          assume "strict_prefix p q"
          with 2 have "prefix p path" by (auto simp: strict_prefix_def)
          moreover from \<open>p \<in> set ?old\<close> have "p \<parallel> path" by (rule old_par)
          ultimately show False by (auto simp: parallel_def)
        qed
      qed
    qed
  qed
  from "2.IH" [OF p1 p2 p3 p4 p5] show ?case by simp
qed

lemma distinct_seed: "wf_tree t \<Longrightarrow> distinct (initializeQueueWithNestedDeps t)"
  unfolding initializeQueueWithNestedDeps_def
  by (rule initializeQueue_loop_distinct) simp_all

lemma seed_nonempty: "[] \<notin> set (initializeQueueWithNestedDeps t)"
  unfolding initializeQueueWithNestedDeps_def
  by (rule initializeQueue_loop_nonempty) simp

lemma dequeued_seed_count:
  assumes "wf_tree t"
  shows "count_list (dequeued t inp (initializeQueueWithNestedDeps t) st) p \<le> length p"
proof (induction p rule: rev_induct)
  case Nil
  have "[] \<notin> set (dequeued t inp (initializeQueueWithNestedDeps t) st)"
    by (rule dequeued_nonempty) (rule seed_nonempty)
  then show ?case by simp
next
  case (snoc x xs)
  from dequeued_count [OF assms, of inp "initializeQueueWithNestedDeps t" st "xs @ [x]"]
    distinct_count_le_1 [OF distinct_seed [OF assms], of "xs @ [x]"] snoc
  show ?case by simp
qed

text \<open>
  C3, as the claim states it, fails in its bound. On the chain
  \<open>express \<rightarrow> body-parser \<rightarrow> qs\<close> with no finding at all, the name \<open>qs\<close> occurs once in the
  seeded queue and is dequeued three times: from the seed, from the expansion of the
  seeded \<open>[express, body-parser]\<close>, and from the expansion of the copy of that path which
  the expansion of \<open>[express]\<close> had pushed.
\<close>

theorem name_dequeued_three_times:
  "length (filter (\<lambda>p. last p = ''qs'')
      (initializeQueueWithNestedDeps
         (Node [(''express'', Node [(''body-parser'', Node [(''qs'', Node [])])])]))) = 1
   \<and> length (filter (\<lambda>p. last p = ''qs'')
      (dequeued (Node [(''express'', Node [(''body-parser'', Node [(''qs'', Node [])])])])
         \<lparr>devDependencies = [], withinProjectDependencies = [], laggingDependencies = [],
          vulnerabilitiesData = [], releaseIntervals = Map.empty\<rparr>
         (initializeQueueWithNestedDeps
            (Node [(''express'', Node [(''body-parser'', Node [(''qs'', Node [])])])]))
         initial_state)) = 3"
  by code_simp

text \<open>
  C3, amended. For every tree (with distinct keys in every node, as in a JSON object) and
  all classification inputs the loop runs to the empty queue; the number of its
  iterations is at most the sum, over the seeded paths, of the sizes of the subtrees they
  lead to. A path is dequeued at most once for its occurrence in the seeded queue, of which
  there is at most one, plus once for each time its parent path is dequeued; hence a path
  of length \<open>d\<close> is dequeued at most \<open>d\<close> times.
\<close>

theorem traversal_terminates_bounded:
  assumes "wf_tree t"
  shows "loop_runs t inp (initializeQueueWithNestedDeps t, initial_state)
           (traverse t inp (initializeQueueWithNestedDeps t) initial_state)
       \<and> length (dequeued t inp (initializeQueueWithNestedDeps t) initial_state)
           \<le> sum_list (map (path_weight t) (initializeQueueWithNestedDeps t))
       \<and> count_list (dequeued t inp (initializeQueueWithNestedDeps t) initial_state) p
           \<le> count_list (initializeQueueWithNestedDeps t) p
             + count_list (dequeued t inp (initializeQueueWithNestedDeps t) initial_state) (butlast p)
       \<and> count_list (initializeQueueWithNestedDeps t) p \<le> 1
       \<and> count_list (dequeued t inp (initializeQueueWithNestedDeps t) initial_state) p \<le> length p"
  using loop_runs_traverse dequeued_length dequeued_count [OF assms]
    distinct_count_le_1 [OF distinct_seed [OF assms]] dequeued_seed_count [OF assms]
  by blast

theorem traversal_terminates_bounded_witness:
  "count_list
      (dequeued (Node [(''express'', Node [(''body-parser'', Node [(''qs'', Node [])])])])
         \<lparr>devDependencies = [], withinProjectDependencies = [], laggingDependencies = [],
          vulnerabilitiesData = [], releaseIntervals = Map.empty\<rparr>
         (initializeQueueWithNestedDeps
            (Node [(''express'', Node [(''body-parser'', Node [(''qs'', Node [])])])]))
         initial_state)
      [''express'', ''body-parser'', ''qs''] \<le> 3
   \<and> wf_tree (Node [(''express'', Node [(''body-parser'', Node [(''qs'', Node [])])])])"
proof -
  have h: "wf_tree (Node [(''express'', Node [(''body-parser'', Node [(''qs'', Node [])])])])"
    by simp
  from traversal_terminates_bounded [OF h, of
      "\<lparr>devDependencies = [], withinProjectDependencies = [], laggingDependencies = [],
        vulnerabilitiesData = [], releaseIntervals = Map.empty\<rparr>"
      "[''express'', ''body-parser'', ''qs'']"] h
  show ?thesis by simp
qed

section \<open>The report and the order of the keys\<close>





















end
